theory Spec2Isabelle
  imports Complex_Main "HOL-Library.Multiset" "HOL-Library.Sublist"
begin

section \<open>GridZen: the game engine of src/App.js\<close>

text \<open>
  The component \<open>GridZenGame\<close> keeps its state in React hooks. The embedding collects
  the hooks the engine uses in one record, turns every handler into a function on that
  record, and writes the exceptions of the runtime as values of a sum type.
\<close>

subsection \<open>Data model\<close>

datatype phase = Splash | Menu | Playing | Won | GameOver

text \<open>
  A colour is the template string \<open>hsl(h, s%, l%)\<close> of \<open>generateDistinctColors\<close>; the
  embedding keeps its three numbers. JavaScript numbers are doubles: hue, saturation and
  lightness are modelled as reals (rounding is not modelled), tile numbers, indices and
  sizes as naturals, counters as integers.
\<close>

datatype color = Hsl (hue: real) (saturation: real) (lightness: real)

record tile =
  number :: nat
  color :: color

type_synonym board = "tile list list"

text \<open>The object \<open>newScore\<close> of \<open>handleWin\<close>; its field \<open>moves\<close> is \<open>scoreMoves\<close> here.\<close>

record score =
  name :: string
  scoreMoves :: int
  timeRemaining :: int
  date :: string

text \<open>
  What a handler sends out of the engine: \<open>Alert.alert\<close> (by its title), a sound that
  is replayed, and the two writes to the device store.
\<close>

datatype signal =
    Alert string
  | PlaySound string
  | SavePlayerName string
  | SaveHighScores

datatype error =
    TypeError
  | StoresUndefined

text \<open>
  \<open>TypeError\<close> is the runtime's exception on reading a property of \<open>undefined\<close>.
  \<open>StoresUndefined\<close> marks the places where the source would put \<open>undefined\<close> into a
  state variable (a tile outside a row, a time limit of an unknown size): the types below
  cannot hold that value, so the handler's result there is this error.
\<close>

record state =
  gameState :: phase
  gridSize :: nat
  grid :: board
  targetGrid :: board
  selectedTile :: "(nat \<times> nat) option"
  moves :: int
  timeLeft :: int
  playerName :: string
  highScores :: "string \<rightharpoonup> score list"
  soundEnabled :: bool
  timerRef :: "int option"
  signals :: "signal list"

text \<open>
  \<open>timerRef\<close> is \<open>Some t\<close> while a timeout of the timer effect is pending; \<open>t\<close> is the
  \<open>timeLeft\<close> its callback has captured. \<open>signals\<close> is the log of what was sent out,
  oldest first.
\<close>

subsection \<open>Win check (checkWin)\<close>

text \<open>
  The inner loop over \<open>j\<close>: \<open>None\<close> is the early \<open>return false\<close>, \<open>Some e\<close> the value of
  \<open>expectedNumber\<close> when the loop ends. Reading \<open>.number\<close> of a missing cell throws.
\<close>

function checkWin_cols :: "nat \<Rightarrow> tile list \<Rightarrow> nat \<Rightarrow> nat \<Rightarrow> error + nat option" where
  "checkWin_cols n row j expectedNumber =
     (if j < n then
        (if j < length row then
           (if number (row ! j) \<noteq> expectedNumber then Inr None
            else checkWin_cols n row (j + 1) (expectedNumber + 1))
         else Inl TypeError)
      else Inr (Some expectedNumber))"
  by pat_completeness auto
termination
  by (relation "measure (\<lambda>(n, row, j, e). n - j)") auto

declare checkWin_cols.simps [simp del]

text \<open>The outer loop over \<open>i\<close>; a missing row makes \<open>currentGrid[i][j]\<close> throw.\<close>

function checkWin_rows :: "nat \<Rightarrow> board \<Rightarrow> nat \<Rightarrow> nat \<Rightarrow> error + bool" where
  "checkWin_rows n currentGrid i expectedNumber =
     (if i < n then
        (if i < length currentGrid then
           (case checkWin_cols n (currentGrid ! i) 0 expectedNumber of
              Inl e \<Rightarrow> Inl e
            | Inr None \<Rightarrow> Inr False
            | Inr (Some e') \<Rightarrow> checkWin_rows n currentGrid (i + 1) e')
         else Inl TypeError)
      else Inr True)"
  by pat_completeness auto
termination
  by (relation "measure (\<lambda>(n, g, i, e). n - i)") auto

declare checkWin_rows.simps [simp del]

definition checkWin :: "nat \<Rightarrow> board \<Rightarrow> error + bool" where
  "checkWin n currentGrid = checkWin_rows n currentGrid 0 1"

text \<open>A board of the current size: \<open>n\<close> rows of \<open>n\<close> tiles.\<close>

definition square :: "nat \<Rightarrow> board \<Rightarrow> bool" where
  "square n g = (length g = n \<and> list_all (\<lambda>row. length row = n) g)"

subsection \<open>Signals\<close>

definition alert :: "string \<Rightarrow> state \<Rightarrow> state" where
  "alert title s = s\<lparr>signals := signals s @ [Alert title]\<rparr>"

text \<open>
  \<open>playSound\<close> returns at once when the sounds are switched off; \<open>enabled\<close> is the
  \<open>soundEnabled\<close> of the render the caller belongs to. The signal is the request to
  replay; whether the sound object was loaded is the audio library's matter.
\<close>

definition playSound :: "bool \<Rightarrow> string \<Rightarrow> state \<Rightarrow> state" where
  "playSound enabled soundType s =
     (if \<not> enabled then s else s\<lparr>signals := signals s @ [PlaySound soundType]\<rparr>)"

subsection \<open>Score ledger (handleWin)\<close>

text \<open>Decimal digits of a number, for the template string of the score key.\<close>

function showNat :: "nat \<Rightarrow> string" where
  "showNat n =
     (if n < 10 then [''0123456789'' ! n]
      else showNat (n div 10) @ [''0123456789'' ! (n mod 10)])"
  by pat_completeness auto
termination
  by (relation "measure id") auto

declare showNat.simps [simp del]

definition scoreKey :: "nat \<Rightarrow> string" where
  "scoreKey n = showNat n @ ''x'' @ showNat n"

text \<open>
  Lines 367 to 374 of \<open>handleWin\<close>: the list of the key (a fresh one when the key is
  absent) gets the new score pushed at its end, is sorted by \<open>a.moves - b.moves\<close> and cut
  to its first five entries. \<open>Array.prototype.sort\<close> is stable; \<open>sort_key\<close> is the stable
  insertion sort of the library.
\<close>

definition updatedScores :: "(string \<rightharpoonup> score list) \<Rightarrow> string \<Rightarrow> score \<Rightarrow> (string \<rightharpoonup> score list)" where
  "updatedScores hs key newScore =
     (let old = (case hs key of None \<Rightarrow> [] | Some l \<Rightarrow> l)
      in hs(key \<mapsto> take 5 (sort_key scoreMoves (old @ [newScore]))))"

text \<open>
  A handler is a closure of one render: it reads the state of that render, and its
  set-calls only queue the next state. \<open>handleWin today c s\<close> reads from \<open>c\<close>, the state
  of the render the handler belongs to, and queues onto \<open>s\<close>. \<open>today\<close> is
  \<open>new Date().toLocaleDateString()\<close>. The other handlers take one state: what they read is
  not touched by what they have queued before.
\<close>

definition handleWin :: "string \<Rightarrow> state \<Rightarrow> state \<Rightarrow> state" where
  "handleWin today c s =
     (let newScore = \<lparr>name = playerName c, scoreMoves = moves c,
                      timeRemaining = timeLeft c, date = today\<rparr>;
          s1 = s\<lparr>gameState := Won, timerRef := None,
                 highScores := updatedScores (highScores c) (scoreKey (gridSize c)) newScore,
                 signals := signals s @ [SaveHighScores]\<rparr>
      in alert ''Congratulations!'' (playSound (soundEnabled c) ''victory'' s1))"

subsection \<open>Time out (handleGameOver)\<close>

definition handleGameOver :: "state \<Rightarrow> state" where
  "handleGameOver s =
     alert ''Time's Up!''
       (playSound (soundEnabled s) ''gameover'' (s\<lparr>gameState := GameOver, timerRef := None\<rparr>))"

subsection \<open>Move engine (handleTilePress)\<close>

definition isAdjacent :: "nat \<Rightarrow> nat \<Rightarrow> nat \<Rightarrow> nat \<Rightarrow> bool" where
  "isAdjacent row col selRow selCol =
     ((\<bar>int row - int selRow\<bar> = 1 \<and> col = selCol) \<or>
      (\<bar>int col - int selCol\<bar> = 1 \<and> row = selRow))"

text \<open>
  Lines 317 to 320. \<open>newGrid\<close> is a copy of the outer array only, and the three
  assignments run in this order. A row that does not exist makes \<open>newGrid[row][col]\<close>
  throw; a column outside its row would read and store \<open>undefined\<close>. An exception ends
  the handler: the result is then the error, and nothing is said about the state that
  was queued before it.
\<close>

definition swapTiles :: "board \<Rightarrow> nat \<Rightarrow> nat \<Rightarrow> nat \<Rightarrow> nat \<Rightarrow> error + board" where
  "swapTiles g row col selRow selCol =
     (if \<not> (row < length g \<and> selRow < length g) then Inl TypeError
      else if \<not> (col < length (g ! row) \<and> selCol < length (g ! selRow)) then Inl StoresUndefined
      else
        (let temp = g ! row ! col;
             g1 = g[row := (g ! row)[col := g ! selRow ! selCol]];
             g2 = g1[selRow := (g1 ! selRow)[selCol := temp]]
         in Inr g2))"

definition handleTilePress :: "string \<Rightarrow> state \<Rightarrow> nat \<Rightarrow> nat \<Rightarrow> error + state" where
  "handleTilePress today s row col =
     (if gameState s \<noteq> Playing then Inr s
      else
        (case selectedTile s of
           None \<Rightarrow> Inr (s\<lparr>selectedTile := Some (row, col)\<rparr>)
         | Some (selRow, selCol) \<Rightarrow>
             if row = selRow \<and> col = selCol then Inr (s\<lparr>selectedTile := None\<rparr>)
             else if isAdjacent row col selRow selCol then
               (case swapTiles (grid s) row col selRow selCol of
                  Inl e \<Rightarrow> Inl e
                | Inr newGrid \<Rightarrow>
                    (let s1 = s\<lparr>grid := newGrid, moves := moves s + 1, selectedTile := None\<rparr>
                     in case checkWin (gridSize s) newGrid of
                          Inl e \<Rightarrow> Inl e
                        | Inr won \<Rightarrow> Inr (if won then handleWin today s s1 else s1)))
             else Inr (s\<lparr>selectedTile := Some (row, col)\<rparr>)))"


subsection \<open>Colour generator (generateDistinctColors)\<close>

text \<open>
  What \<open>Math.random\<close> and the engine's \<open>Array.prototype.sort\<close> do is not code of this
  repository; one outcome of them is a value of \<open>rand\<close>. \<open>random k\<close> is the result of
  the \<open>k\<close>-th call of \<open>Math.random()\<close> in the loop of \<open>generateDistinctColors\<close>;
  \<open>sortColors\<close> and \<open>sortNumbers\<close> are the two calls of \<open>sort(() => Math.random() - 0.5)\<close>,
  on the colours and on the numbers.
\<close>

record rand =
  random :: "nat \<Rightarrow> real"
  sortColors :: "color list \<Rightarrow> color list"
  sortNumbers :: "nat list \<Rightarrow> nat list"


text \<open>The engine's sort moves the elements of the array and neither adds nor drops one.\<close>

definition rearranges :: "('a list \<Rightarrow> 'a list) \<Rightarrow> bool" where
  "rearranges f = (\<forall>xs. mset (f xs) = mset xs)"

text \<open>The operator \<open>%\<close>: the quotient is cut towards zero.\<close>

definition jsRem :: "real \<Rightarrow> real \<Rightarrow> real" where
  "jsRem x m = x - m * of_int (if 0 \<le> x / m then \<lfloor>x / m\<rfloor> else \<lceil>x / m\<rceil>)"

text \<open>
  The body of the loop at index \<open>i\<close>: three draws, in the order of the source.
  \<open>cnt\<close> is the parameter \<open>count\<close>.
\<close>

definition colorAt :: "(nat \<Rightarrow> real) \<Rightarrow> nat \<Rightarrow> nat \<Rightarrow> color" where
  "colorAt rnd cnt i =
     (let hueStep = 360 / real cnt;
          hue = jsRem (real i * hueStep + rnd (3 * i) * 30) 360;
          saturation = 70 + rnd (3 * i + 1) * 30;
          lightness = 45 + rnd (3 * i + 2) * 20
      in Hsl hue saturation lightness)"

text \<open>The array \<open>colors\<close> when the loop has ended, before it is sorted.\<close>

definition pushedColors :: "(nat \<Rightarrow> real) \<Rightarrow> nat \<Rightarrow> color list" where
  "pushedColors rnd cnt = map (colorAt rnd cnt) [0..<cnt]"

definition generateDistinctColors :: "rand \<Rightarrow> nat \<Rightarrow> color list" where
  "generateDistinctColors r cnt = sortColors r (pushedColors (random r) cnt)"

subsection \<open>Grid factory (initializeGrid)\<close>

text \<open>
  The two nested loops fill the cells in row-major order. The reads \<open>colors[k]\<close> and
  \<open>shuffled[k]\<close> are written with \<open>!\<close>: they stay inside the arrays as long as the two
  sorts rearrange their arrays, which is the hypothesis of every theorem about the result.
\<close>

definition targetOf :: "nat \<Rightarrow> color list \<Rightarrow> board" where
  "targetOf n colors =
     map (\<lambda>i. map (\<lambda>j. \<lparr>number = i * n + j + 1, color = colors ! (i * n + j)\<rparr>)
                [0..<n]) [0..<n]"

definition newGridOf :: "nat \<Rightarrow> color list \<Rightarrow> nat list \<Rightarrow> board" where
  "newGridOf n colors shuffled =
     map (\<lambda>i. map (\<lambda>j. let index = i * n + j
                      in \<lparr>number = shuffled ! index, color = colors ! (shuffled ! index - 1)\<rparr>)
                [0..<n]) [0..<n]"

definition initializeGrid :: "rand \<Rightarrow> state \<Rightarrow> state" where
  "initializeGrid r s =
     (let size = gridSize s * gridSize s;
          colors = generateDistinctColors r size;
          numbers = map (\<lambda>i. i + 1) [0..<size];
          target = targetOf (gridSize s) colors;
          shuffled = sortNumbers r numbers;
          newGrid = newGridOf (gridSize s) colors shuffled
      in s\<lparr>targetGrid := target, grid := newGrid\<rparr>)"

subsection \<open>Starting a game (startGame)\<close>





subsection \<open>Session clock (the timer effect)\<close>

text \<open>
  The effect of lines 205 to 219 runs after a render in which \<open>timeLeft\<close> or \<open>gameState\<close>
  has changed: first the cleanup of the previous run, which clears the pending timeout,
  then the body, which either starts a timeout of one second or calls \<open>handleGameOver\<close>.
\<close>

definition timerCleanup :: "state \<Rightarrow> state" where
  "timerCleanup s = s\<lparr>timerRef := None\<rparr>"

definition timerEffect :: "state \<Rightarrow> state" where
  "timerEffect s =
     (if gameState s = Playing \<and> timeLeft s > 0 then s\<lparr>timerRef := Some (timeLeft s)\<rparr>
      else if timeLeft s = 0 \<and> gameState s = Playing then handleGameOver s
      else s)"

text \<open>
  A state change made by the effect itself causes one more render, and the effect runs
  again when that render changed \<open>timeLeft\<close> or \<open>gameState\<close>.
\<close>

function rerender :: "state \<Rightarrow> state" where
  "rerender s =
     (let s' = timerEffect (timerCleanup s)
      in if timeLeft s' = timeLeft s \<and> gameState s' = gameState s then s' else rerender s')"
  by pat_completeness auto
termination
  by (relation "measure (\<lambda>s. if gameState s = Playing then 1 else 0)")
     (auto simp: timerEffect_def timerCleanup_def handleGameOver_def alert_def playSound_def
           split: if_splits)

declare rerender.simps [simp del]

text \<open>The render after a handler has turned the state \<open>old\<close> into \<open>new\<close>.\<close>

definition commit :: "state \<Rightarrow> state \<Rightarrow> state" where
  "commit old new =
     (if timeLeft new = timeLeft old \<and> gameState new = gameState old then new
      else rerender new)"

text \<open>
  One tick of the clock: the pending timeout fires, its callback calls
  \<open>setTimeLeft(timeLeft - 1)\<close> with the \<open>timeLeft\<close> it has captured, and the component
  renders again. Without a pending timeout nothing happens.
\<close>

definition tick :: "state \<Rightarrow> state" where
  "tick s =
     (case timerRef s of
        None \<Rightarrow> s
      | Some t \<Rightarrow> commit s (s\<lparr>timeLeft := t - 1, timerRef := None\<rparr>))"

text \<open>
  A state as a render leaves it: a timeout is pending exactly while the game is played
  with time left, it has captured the current \<open>timeLeft\<close>, and the game is not played at
  \<open>timeLeft = 0\<close>.
\<close>

definition settled :: "state \<Rightarrow> bool" where
  "settled s =
     (timerRef s = (if gameState s = Playing \<and> 0 < timeLeft s then Some (timeLeft s) else None)
      \<and> \<not> (gameState s = Playing \<and> timeLeft s = 0))"

subsection \<open>The words of the specification\<close>

text \<open>
  Two cells are orthogonal neighbours when exactly one of row and column differs by one
  and the other is equal.
\<close>

definition orthogonal :: "nat \<times> nat \<Rightarrow> nat \<times> nat \<Rightarrow> bool" where
  "orthogonal a b =
     ((fst a = fst b \<and> (snd a = snd b + 1 \<or> snd b = snd a + 1)) \<or>
      (snd a = snd b \<and> (fst a = fst b + 1 \<or> fst b = fst a + 1)))"

text \<open>
  The invariant of the grid: \<open>n\<close> rows of \<open>n\<close> tiles, and every number from 1 to
  \<open>n * n\<close> is the number of exactly one tile.
\<close>

definition validGrid :: "nat \<Rightarrow> board \<Rightarrow> bool" where
  "validGrid n g =
     (square n g \<and> list_all (\<lambda>k. count_list (map number (concat g)) k = 1) [1..<n * n + 1])"

text \<open>The selection, when there is one, points into the board.\<close>

definition selectionInside :: "state \<Rightarrow> bool" where
  "selectionInside s =
     (case selectedTile s of
        None \<Rightarrow> True
      | Some (selRow, selCol) \<Rightarrow> selRow < gridSize s \<and> selCol < gridSize s)"

text \<open>
  The case in which a tap is a swap: the game is played, a cell is selected, and the
  tapped cell is another cell and an orthogonal neighbour of it.
\<close>

definition swapDue :: "state \<Rightarrow> nat \<Rightarrow> nat \<Rightarrow> bool" where
  "swapDue s row col =
     (gameState s = Playing \<and>
      (case selectedTile s of
         None \<Rightarrow> False
       | Some sel \<Rightarrow> (row, col) \<noteq> sel \<and> orthogonal (row, col) sel))"




subsection \<open>Example boards and states\<close>

definition plain :: "nat \<Rightarrow> tile" where
  "plain k = \<lparr>number = k, color = Hsl 0 70 45\<rparr>"

definition solved3 :: board where
  "solved3 = map (map plain) [[1, 2, 3], [4, 5, 6], [7, 8, 9]]"

text \<open>The solved board with the last two tiles exchanged.\<close>

definition near3 :: board where
  "near3 = map (map plain) [[1, 2, 3], [4, 5, 6], [7, 9, 8]]"

text \<open>A session of Ava on the 3x3 board, one swap from the end, 29 seconds left.\<close>

definition ava :: state where
  "ava = \<lparr>gameState = Playing, gridSize = 3, grid = near3, targetGrid = solved3,
           selectedTile = None, moves = 0, timeLeft = 29, playerName = ''Ava'',
           highScores = Map.empty, soundEnabled = False, timerRef = Some 29, signals = []\<rparr>"

text \<open>One outcome of the random calls: every draw is 0.9, both sorts reverse their array.\<close>

definition fixedRand :: rand where
  "fixedRand = \<lparr>random = (\<lambda>k. 9 / 10), sortColors = rev, sortNumbers = rev\<rparr>"

section \<open>Properties\<close>

subsection \<open>Boards as flat lists\<close>

lemma cell_index_less: "r < n \<Longrightarrow> c < n \<Longrightarrow> r * n + c < n * (n::nat)"
proof -
  assume "r < n" "c < n"
  then have "r * n + c < (r + 1) * n" by simp
  also have "\<dots> \<le> n * n" using \<open>r < n\<close> by (intro mult_le_mono1) simp
  finally show ?thesis .
qed

lemma cell_index_eq:
  "c < n \<Longrightarrow> c' < n \<Longrightarrow> (r * n + c = r' * n + c') = (r = r' \<and> c = (c'::nat))"
proof
  assume lt: "c < n" "c' < n" and eq: "r * n + c = r' * n + c'"
  have "(r * n + c) div n = r" "(r' * n + c') div n = r'" using lt by simp_all
  with eq have "r = r'" by simp
  with eq show "r = r' \<and> c = c'" by simp
qed simp

lemma length_concat_rows:
  "list_all (\<lambda>row. length row = n) g \<Longrightarrow> length (concat g) = length g * n"
  by (induction g) simp_all

lemma concat_nth_square:
  "list_all (\<lambda>row. length row = n) g \<Longrightarrow> r < length g \<Longrightarrow> c < n \<Longrightarrow>
   concat g ! (r * n + c) = g ! r ! c"
proof (induction g arbitrary: r)
  case Nil then show ?case by simp
next
  case (Cons row g)
  show ?case
  proof (cases r)
    case 0
    with Cons.prems show ?thesis by (simp add: nth_append)
  next
    case (Suc r')
    with Cons.prems have "concat g ! (r' * n + c) = g ! r' ! c"
      by (intro Cons.IH) simp_all
    with Suc Cons.prems show ?thesis by (simp add: nth_append)
  qed
qed

subsection \<open>The win check\<close>

lemma checkWin_cols_eq:
  "length row = n \<Longrightarrow> j \<le> n \<Longrightarrow>
   checkWin_cols n row j e =
     Inr (if (\<forall>k. j \<le> k \<and> k < n \<longrightarrow> number (row ! k) = e + (k - j))
          then Some (e + (n - j)) else None)"
proof (induction n row j e rule: checkWin_cols.induct)
  case (1 n row j e)
  show ?case
  proof (cases "j < n")
    case False
    with "1.prems" show ?thesis by (subst checkWin_cols.simps) simp
  next
    case jn: True
    show ?thesis
    proof (cases "number (row ! j) = e")
      case False
      then have "\<not> (\<forall>k. j \<le> k \<and> k < n \<longrightarrow> number (row ! k) = e + (k - j))"
        using jn by (auto intro!: exI[of _ j])
      with False jn "1.prems" show ?thesis by (subst checkWin_cols.simps) simp
    next
      case True
      have ih: "checkWin_cols n row (j + 1) (e + 1) =
          Inr (if (\<forall>k. j + 1 \<le> k \<and> k < n \<longrightarrow> number (row ! k) = e + 1 + (k - (j + 1)))
               then Some (e + 1 + (n - (j + 1))) else None)"
        using "1.IH"[OF jn] "1.prems" jn True by simp
      have eq: "(\<forall>k. j \<le> k \<and> k < n \<longrightarrow> number (row ! k) = e + (k - j)) \<longleftrightarrow>
                (\<forall>k. j + 1 \<le> k \<and> k < n \<longrightarrow> number (row ! k) = e + 1 + (k - (j + 1)))"
      proof
        assume a: "\<forall>k. j \<le> k \<and> k < n \<longrightarrow> number (row ! k) = e + (k - j)"
        show "\<forall>k. j + 1 \<le> k \<and> k < n \<longrightarrow> number (row ! k) = e + 1 + (k - (j + 1))"
        proof (intro allI impI)
          fix k assume "j + 1 \<le> k \<and> k < n"
          then have k: "j \<le> k \<and> k < n" and d: "k - j = k - (j + 1) + 1" by arith+
          from a[rule_format, OF k] d show "number (row ! k) = e + 1 + (k - (j + 1))" by simp
        qed
      next
        assume a: "\<forall>k. j + 1 \<le> k \<and> k < n \<longrightarrow> number (row ! k) = e + 1 + (k - (j + 1))"
        show "\<forall>k. j \<le> k \<and> k < n \<longrightarrow> number (row ! k) = e + (k - j)"
        proof (intro allI impI)
          fix k assume k: "j \<le> k \<and> k < n"
          show "number (row ! k) = e + (k - j)"
          proof (cases "k = j")
            case True with \<open>number (row ! j) = e\<close> show ?thesis by simp
          next
            case False
            with k have "j + 1 \<le> k \<and> k < n" by simp
            moreover from k False have "k - j = k - (j + 1) + 1" by arith
            ultimately show ?thesis using a[rule_format, of k] by simp
          qed
        qed
      qed
      have "checkWin_cols n row j e = checkWin_cols n row (j + 1) (e + 1)"
        using jn True "1.prems" by (subst checkWin_cols.simps) simp
      also note ih
      finally have "checkWin_cols n row j e =
          Inr (if (\<forall>k. j \<le> k \<and> k < n \<longrightarrow> number (row ! k) = e + (k - j))
               then Some (e + 1 + (n - (j + 1))) else None)"
        unfolding eq .
      moreover have "e + 1 + (n - (j + 1)) = e + (n - j)" using jn by arith
      ultimately show ?thesis by (simp only:)
    qed
  qed
qed

lemma checkWin_rows_eq:
  "square n g \<Longrightarrow> i \<le> n \<Longrightarrow> e = i * n + 1 \<Longrightarrow>
   checkWin_rows n g i e =
     Inr (\<forall>r c. i \<le> r \<and> r < n \<and> c < n \<longrightarrow> number (g ! r ! c) = r * n + c + 1)"
proof (induction n g i e rule: checkWin_rows.induct)
  case (1 n g i e)
  have len: "length g = n" and rows: "\<And>r. r < n \<Longrightarrow> length (g ! r) = n"
    using "1.prems"(1) by (auto simp: square_def list_all_length)
  show ?case
  proof (cases "i < n")
    case False
    then show ?thesis by (subst checkWin_rows.simps) simp
  next
    case inn: True
    have cols: "checkWin_cols n (g ! i) 0 e =
        Inr (if (\<forall>k. k < n \<longrightarrow> number (g ! i ! k) = e + k) then Some (e + n) else None)"
      using checkWin_cols_eq[of "g ! i" n 0 e] rows[OF inn] by simp
    show ?thesis
    proof (cases "\<forall>k. k < n \<longrightarrow> number (g ! i ! k) = e + k")
      case False
      then obtain k where k: "k < n" "number (g ! i ! k) \<noteq> e + k" by blast
      have "\<not> (\<forall>r c. i \<le> r \<and> r < n \<and> c < n \<longrightarrow> number (g ! r ! c) = r * n + c + 1)"
      proof
        assume a: "\<forall>r c. i \<le> r \<and> r < n \<and> c < n \<longrightarrow> number (g ! r ! c) = r * n + c + 1"
        from a[rule_format, of i k] k inn "1.prems"(3) show False by simp
      qed
      then have nall: "(\<forall>r c. i \<le> r \<and> r < n \<and> c < n \<longrightarrow> number (g ! r ! c) = r * n + c + 1) = False"
        by simp
      have "checkWin_cols n (g ! i) 0 e = Inr None" using cols False by simp
      then have "checkWin_rows n g i e = Inr False"
        using inn len by (subst checkWin_rows.simps) simp
      then show ?thesis by (simp only: nall)
    next
      case True
      have step: "checkWin_rows n g i e = checkWin_rows n g (i + 1) (e + n)"
        using cols True inn len by (subst checkWin_rows.simps) simp
      have ih: "checkWin_rows n g (i + 1) (e + n) =
          Inr (\<forall>r c. i + 1 \<le> r \<and> r < n \<and> c < n \<longrightarrow> number (g ! r ! c) = r * n + c + 1)"
        using "1.IH"[OF inn _ _ _ "1.prems"(1), of "Some (e + n)" "e + n"] cols True inn len "1.prems"(3)
        by simp
      have eq: "(\<forall>r c. i \<le> r \<and> r < n \<and> c < n \<longrightarrow> number (g ! r ! c) = r * n + c + 1) \<longleftrightarrow>
                (\<forall>r c. i + 1 \<le> r \<and> r < n \<and> c < n \<longrightarrow> number (g ! r ! c) = r * n + c + 1)"
      proof
        assume a: "\<forall>r c. i + 1 \<le> r \<and> r < n \<and> c < n \<longrightarrow> number (g ! r ! c) = r * n + c + 1"
        show "\<forall>r c. i \<le> r \<and> r < n \<and> c < n \<longrightarrow> number (g ! r ! c) = r * n + c + 1"
        proof (intro allI impI)
          fix r c assume rc: "i \<le> r \<and> r < n \<and> c < n"
          show "number (g ! r ! c) = r * n + c + 1"
          proof (cases "r = i")
            case True
            with rc \<open>\<forall>k. k < n \<longrightarrow> number (g ! i ! k) = e + k\<close> "1.prems"(3) show ?thesis by simp
          next
            case False
            with rc have "i + 1 \<le> r \<and> r < n \<and> c < n" by simp
            from a[rule_format, OF this] show ?thesis .
          qed
        qed
      qed simp
      show ?thesis using step ih eq by simp
    qed
  qed
qed

lemma checkWin_square:
  assumes "square n g"
  shows "checkWin n g = Inr (\<forall>k < n * n. number (concat g ! k) = k + 1)"
proof -
  have rows: "list_all (\<lambda>row. length row = n) g" and len: "length g = n"
    using assms by (simp_all add: square_def)
  have "(\<forall>r c. 0 \<le> r \<and> r < n \<and> c < n \<longrightarrow> number (g ! r ! c) = r * n + c + 1) \<longleftrightarrow>
        (\<forall>k < n * n. number (concat g ! k) = k + 1)" (is "?L \<longleftrightarrow> ?R")
  proof
    assume l: ?L
    show ?R
    proof (intro allI impI)
      fix k assume k: "k < n * n"
      then have n0: "0 < n" by (cases n) simp_all
      have r: "k div n < n" using k by (simp add: less_mult_imp_div_less)
      have c: "k mod n < n" using n0 by simp
      have "concat g ! (k div n * n + k mod n) = g ! (k div n) ! (k mod n)"
        using concat_nth_square[OF rows, of "k div n" "k mod n"] r c len by simp
      moreover have "number (g ! (k div n) ! (k mod n)) = k div n * n + k mod n + 1"
        using l r c by simp
      ultimately show "number (concat g ! k) = k + 1" by simp
    qed
  next
    assume r: ?R
    show ?L
    proof (intro allI impI)
      fix i c assume ic: "0 \<le> i \<and> i < n \<and> c < n"
      then have "i * n + c < n * n" by (simp add: cell_index_less)
      with r have "number (concat g ! (i * n + c)) = i * n + c + 1" by simp
      then show "number (g ! i ! c) = i * n + c + 1"
        using concat_nth_square[OF rows, of i c] ic len by simp
    qed
  qed
  then show ?thesis
    using checkWin_rows_eq[OF assms, of 0 1] by (simp add: checkWin_def)
qed


subsection \<open>The boards of the grid factory\<close>

lemma targetOf_square: "square n (targetOf n colors)"
  by (simp add: square_def targetOf_def list_all_length)

lemma targetOf_nth:
  "i < n \<Longrightarrow> j < n \<Longrightarrow>
   targetOf n colors ! i ! j = \<lparr>number = i * n + j + 1, color = colors ! (i * n + j)\<rparr>"
  by (simp add: targetOf_def)

lemma newGridOf_square: "square n (newGridOf n colors shuffled)"
  by (simp add: square_def newGridOf_def list_all_length)

lemma newGridOf_nth:
  "i < n \<Longrightarrow> j < n \<Longrightarrow>
   newGridOf n colors shuffled ! i ! j =
     \<lparr>number = shuffled ! (i * n + j), color = colors ! (shuffled ! (i * n + j) - 1)\<rparr>"
  by (simp add: newGridOf_def Let_def)

lemma concat_square_nth:
  assumes "square n g" "k < n * n"
  shows "concat g ! k = g ! (k div n) ! (k mod n)"
proof -
  from assms(2) have n0: "0 < n" by (cases n) simp_all
  have "concat g ! ((k div n) * n + k mod n) = g ! (k div n) ! (k mod n)"
    using assms n0 by (intro concat_nth_square) (simp_all add: square_def less_mult_imp_div_less)
  then show ?thesis by simp
qed

lemma targetOf_concat_nth:
  assumes "k < n * n"
  shows "concat (targetOf n colors) ! k = \<lparr>number = k + 1, color = colors ! k\<rparr>"
proof -
  from assms have n0: "0 < n" by (cases n) simp_all
  have "k div n < n" "k mod n < n" using assms n0 by (simp_all add: less_mult_imp_div_less)
  then show ?thesis
    using concat_square_nth[OF targetOf_square assms, of colors] by (simp add: targetOf_nth)
qed

lemma checkWin_targetOf: "checkWin n (targetOf n colors) = Inr True"
  by (simp add: checkWin_square[OF targetOf_square] targetOf_concat_nth)


subsection \<open>Swapping two tiles\<close>

lemma swapTiles_length:
  "swapTiles g row col selRow selCol = Inr g' \<Longrightarrow> length g' = length g"
  by (auto simp: swapTiles_def Let_def split: if_splits)

lemma swapTiles_row_length:
  "swapTiles g row col selRow selCol = Inr g' \<Longrightarrow> r < length g \<Longrightarrow> length (g' ! r) = length (g ! r)"
  by (auto simp: swapTiles_def Let_def nth_list_update split: if_splits)

lemma swapTiles_nth:
  assumes "swapTiles g row col selRow selCol = Inr g'" "r < length g" "c < length (g ! r)"
  shows "g' ! r ! c =
           (if r = selRow \<and> c = selCol then g ! row ! col
            else if r = row \<and> c = col then g ! selRow ! selCol
            else g ! r ! c)"
  using assms by (auto simp: swapTiles_def Let_def nth_list_update split: if_splits)

lemma swapTiles_square:
  assumes "square n g" "swapTiles g row col selRow selCol = Inr g'"
  shows "square n g'"
  using assms swapTiles_length[OF assms(2)] swapTiles_row_length[OF assms(2)]
  by (auto simp: square_def list_all_length)

lemma swapTiles_in_square:
  assumes "square n g" "row < n" "col < n" "selRow < n" "selCol < n"
  shows "\<exists>g'. swapTiles g row col selRow selCol = Inr g'"
  using assms by (simp add: swapTiles_def Let_def square_def list_all_length)


lemma swapTiles_concat:
  assumes sq: "square n g" and rg: "row < n" "col < n" "selRow < n" "selCol < n"
    and sw: "swapTiles g row col selRow selCol = Inr g'"
  shows "concat g' = (concat g)[row * n + col := concat g ! (selRow * n + selCol),
                                selRow * n + selCol := concat g ! (row * n + col)]"
proof (rule nth_equalityI)
  have sq': "square n g'" by (rule swapTiles_square[OF sq sw])
  have rows: "list_all (\<lambda>row. length row = n) g" "length g = n"
    and rows': "list_all (\<lambda>row. length row = n) g'" "length g' = n"
    using sq sq' by (simp_all add: square_def)
  show "length (concat g') = length ((concat g)[row * n + col := concat g ! (selRow * n + selCol),
                                selRow * n + selCol := concat g ! (row * n + col)])"
    using rows rows' by (simp add: length_concat_rows)
  fix k assume "k < length (concat g')"
  then have k: "k < n * n" using rows' by (simp add: length_concat_rows)
  then have n0: "0 < n" by (cases n) simp_all
  define r c where "r = k div n" and "c = k mod n"
  have r: "r < n" and c: "c < n" and kk: "k = r * n + c"
    using k n0 by (simp_all add: r_def c_def less_mult_imp_div_less)
  have lt: "\<And>r c. r < n \<Longrightarrow> c < n \<Longrightarrow> r * n + c < length (concat g)"
    using rows by (simp add: length_concat_rows cell_index_less)
  have len_r: "length (g ! r) = n" using rows r by (simp add: list_all_length)
  have "concat g' ! k = g' ! r ! c"
    unfolding kk using concat_nth_square[OF rows'(1), of r c] r c rows' by simp
  also have "\<dots> = (if r = selRow \<and> c = selCol then g ! row ! col
            else if r = row \<and> c = col then g ! selRow ! selCol
            else g ! r ! c)"
    using swapTiles_nth[OF sw, of r c] r c rows len_r by simp
  also have "\<dots> = (concat g)[row * n + col := concat g ! (selRow * n + selCol),
                                selRow * n + selCol := concat g ! (row * n + col)] ! k"
    unfolding kk
    using concat_nth_square[OF rows(1), of r c] concat_nth_square[OF rows(1), of row col]
          concat_nth_square[OF rows(1), of selRow selCol] r c rg rows(2)
          lt[OF r c] lt[OF rg(1,2)] lt[OF rg(3,4)]
    by (simp add: nth_list_update cell_index_eq)
  finally show "concat g' ! k = (concat g)[row * n + col := concat g ! (selRow * n + selCol),
                                selRow * n + selCol := concat g ! (row * n + col)] ! k" .
qed

lemma swapTiles_mset:
  assumes "square n g" "row < n" "col < n" "selRow < n" "selCol < n"
    and "swapTiles g row col selRow selCol = Inr g'"
  shows "mset (concat g') = mset (concat g)"
proof -
  have rows: "list_all (\<lambda>row. length row = n) g" "length g = n"
    using assms(1) by (simp_all add: square_def)
  have lt: "\<And>r c. r < n \<Longrightarrow> c < n \<Longrightarrow> r * n + c < length (concat g)"
    using rows by (simp add: length_concat_rows cell_index_less)
  show ?thesis
    unfolding swapTiles_concat[OF assms]
    using mset_swap[OF lt[OF assms(4,5)] lt[OF assms(2,3)]] by simp
qed
subsection \<open>The win check on the solved board\<close>

lemma checkWin_swapped_target:
  assumes rg: "row < n" "col < n" "selRow < n" "selCol < n"
    and ne: "(row, col) \<noteq> (selRow, selCol)"
    and sw: "swapTiles (targetOf n colors) row col selRow selCol = Inr g'"
  shows "checkWin n g' = Inr False"
proof -
  have sq': "square n g'" by (rule swapTiles_square[OF targetOf_square sw])
  have len: "length (targetOf n colors) = n" "length (targetOf n colors ! row) = n"
    using rg by (simp_all add: targetOf_def)
  have "g' ! row ! col = targetOf n colors ! selRow ! selCol"
    using swapTiles_nth[OF sw, of row col] rg len ne by auto
  then have num: "number (g' ! row ! col) = selRow * n + selCol + 1"
    using rg by (simp add: targetOf_nth)
  have k: "row * n + col < n * n" using rg by (simp add: cell_index_less)
  have "concat g' ! (row * n + col) = g' ! row ! col"
    using sq' rg by (intro concat_nth_square) (simp_all add: square_def)
  with num have "number (concat g' ! (row * n + col)) \<noteq> row * n + col + 1"
    using ne rg by (auto simp: cell_index_eq)
  with k have "\<not> (\<forall>k < n * n. number (concat g' ! k) = k + 1)" by blast
  then show ?thesis by (simp add: checkWin_square[OF sq'])
qed

text \<open>
  Claim C2. On a board of the current size the win check returns true exactly when,
  reading the board row by row, the N-th tile has the number N, for every N from 1 to
  the square of the size. The solved board passes the check, and the solved board with
  two different cells exchanged (two neighbours in particular) fails it.
\<close>

theorem checkWin_row_major:
  "(square n g \<longrightarrow>
      checkWin n g = Inr (\<forall>N \<in> {1..n * n}. number (concat g ! (N - 1)) = N))
   \<and> checkWin n (targetOf n colors) = Inr True
   \<and> (row < n \<and> col < n \<and> selRow < n \<and> selCol < n \<and> (row, col) \<noteq> (selRow, selCol)
        \<and> swapTiles (targetOf n colors) row col selRow selCol = Inr g'
      \<longrightarrow> checkWin n g' = Inr False)"
proof (intro conjI impI)
  assume sq: "square n g"
  have "(\<forall>k < n * n. number (concat g ! k) = k + 1) \<longleftrightarrow>
        (\<forall>N \<in> {1..n * n}. number (concat g ! (N - 1)) = N)"
  proof
    assume l: "\<forall>k < n * n. number (concat g ! k) = k + 1"
    show "\<forall>N \<in> {1..n * n}. number (concat g ! (N - 1)) = N"
    proof
      fix N assume "N \<in> {1..n * n}"
      then have "N - 1 < n * n" "N - 1 + 1 = N" by auto
      with l show "number (concat g ! (N - 1)) = N" by metis
    qed
  next
    assume r: "\<forall>N \<in> {1..n * n}. number (concat g ! (N - 1)) = N"
    show "\<forall>k < n * n. number (concat g ! k) = k + 1"
    proof (intro allI impI)
      fix k assume "k < n * n"
      then have "k + 1 \<in> {1..n * n}" by auto
      with r have "number (concat g ! (k + 1 - 1)) = k + 1" by blast
      then show "number (concat g ! k) = k + 1" by simp
    qed
  qed
  then show "checkWin n g = Inr (\<forall>N \<in> {1..n * n}. number (concat g ! (N - 1)) = N)"
    by (simp add: checkWin_square[OF sq])
next
  show "checkWin n (targetOf n colors) = Inr True" by (rule checkWin_targetOf)
next
  assume "row < n \<and> col < n \<and> selRow < n \<and> selCol < n \<and> (row, col) \<noteq> (selRow, selCol)
        \<and> swapTiles (targetOf n colors) row col selRow selCol = Inr g'"
  then show "checkWin n g' = Inr False" by (intro checkWin_swapped_target[of row n col selRow selCol colors]) simp_all
qed

subsection \<open>The example boards\<close>

lemma square_solved3: "square 3 solved3" by (simp add: square_def solved3_def)
lemma square_near3: "square 3 near3" by (simp add: square_def near3_def)

theorem checkWin_row_major_witness:
  "square 3 near3 \<and> checkWin 3 near3 = Inr False
   \<and> \<not> (\<forall>N \<in> {1..3 * 3}. number (concat near3 ! (N - 1)) = N)
   \<and> square 3 solved3 \<and> checkWin 3 solved3 = Inr True
   \<and> (\<forall>N \<in> {1..3 * 3}. number (concat solved3 ! (N - 1)) = N) = True
   \<and> targetOf 3 (replicate 9 (Hsl 0 70 45)) = solved3
   \<and> swapTiles solved3 2 2 2 1 = Inr near3"
proof -
  have t: "targetOf 3 (replicate 9 (Hsl 0 70 45)) = solved3"
    by (simp add: targetOf_def solved3_def plain_def upt_rec numeral_eq_Suc)
  have w: "swapTiles solved3 2 2 2 1 = Inr near3"
    by (simp add: swapTiles_def solved3_def near3_def Let_def numeral_eq_Suc)
  from checkWin_row_major[where n = 3 and g = near3 and colors = "replicate 9 (Hsl 0 70 45)"
         and row = 2 and col = 2 and selRow = 2 and selCol = 1 and g' = near3]
  have n: "checkWin 3 near3 = Inr False" using t w by simp
  from checkWin_row_major[where n = 3 and colors = "replicate 9 (Hsl 0 70 45)"]
  have s: "checkWin 3 solved3 = Inr True" using t by simp
  from checkWin_row_major[where n = 3 and g = near3] checkWin_row_major[where n = 3 and g = solved3]
  show ?thesis using n s t w square_near3 square_solved3 by simp
qed

subsection \<open>The move engine\<close>

lemma isAdjacent_orthogonal:
  "isAdjacent row col selRow selCol = orthogonal (row, col) (selRow, selCol)"
  by (auto simp: isAdjacent_def orthogonal_def)

lemma orthogonal_neq: "orthogonal a b \<Longrightarrow> a \<noteq> b"
  by (auto simp: orthogonal_def)

lemma handleWin_fields [simp]:
  "grid (handleWin today c s) = grid s"
  "moves (handleWin today c s) = moves s"
  "gridSize (handleWin today c s) = gridSize s"
  "selectedTile (handleWin today c s) = selectedTile s"
  "timeLeft (handleWin today c s) = timeLeft s"
  "gameState (handleWin today c s) = Won"
  by (simp_all add: handleWin_def Let_def alert_def playSound_def)

lemma checkWin_total: "square n g \<Longrightarrow> \<exists>won. checkWin n g = Inr won"
  by (simp add: checkWin_square)

lemma handleTilePress_swap:
  assumes "gameState s = Playing" "selectedTile s = Some (selRow, selCol)"
    and "orthogonal (row, col) (selRow, selCol)"
    and "square (gridSize s) (grid s)"
    and "row < gridSize s" "col < gridSize s" "selRow < gridSize s" "selCol < gridSize s"
  shows "\<exists>g' won. swapTiles (grid s) row col selRow selCol = Inr g'
           \<and> square (gridSize s) g'
           \<and> checkWin (gridSize s) g' = Inr won
           \<and> handleTilePress today s row col =
               Inr (if won then handleWin today s (s\<lparr>grid := g', moves := moves s + 1, selectedTile := None\<rparr>)
                    else s\<lparr>grid := g', moves := moves s + 1, selectedTile := None\<rparr>)"
proof -
  obtain g' where g': "swapTiles (grid s) row col selRow selCol = Inr g'"
    using swapTiles_in_square[OF assms(4-8)] by blast
  have sq': "square (gridSize s) g'" by (rule swapTiles_square[OF assms(4) g'])
  obtain won where won: "checkWin (gridSize s) g' = Inr won"
    using checkWin_total[OF sq'] by blast
  have ne: "(row = selRow \<and> col = selCol) = False" using orthogonal_neq[OF assms(3)] by simp
  have "handleTilePress today s row col =
               Inr (if won then handleWin today s (s\<lparr>grid := g', moves := moves s + 1, selectedTile := None\<rparr>)
                    else s\<lparr>grid := g', moves := moves s + 1, selectedTile := None\<rparr>)"
    using assms(1-3) g' won ne
    by (auto simp add: handleTilePress_def isAdjacent_orthogonal Let_def)
  with g' sq' won show ?thesis by blast
qed

lemma handleTilePress_no_swap:
  assumes "\<not> swapDue s row col"
  shows "\<exists>s'. handleTilePress today s row col = Inr s' \<and> grid s' = grid s \<and> moves s' = moves s
           \<and> gridSize s' = gridSize s"
  using assms
  by (auto simp: handleTilePress_def swapDue_def isAdjacent_orthogonal split: option.splits)

subsection \<open>The invariant of the grid\<close>

lemma mset_upt_count:
  assumes "list_all (\<lambda>k. count_list xs k = 1) [1..<m + 1]" "length xs = m"
  shows "mset xs = mset [1..<m + 1]"
proof -
  have "mset [1..<m + 1] \<subseteq># mset xs"
  proof (rule mset_subset_eqI)
    fix k
    show "count (mset [1..<m + 1]) k \<le> count (mset xs) k"
    proof (cases "k \<in> set [1..<m + 1]")
      case True
      moreover from assms(1) have "\<forall>k \<in> set [1..<m + 1]. count_list xs k = 1"
        by (simp only: list_all_iff)
      ultimately have "count_list xs k = 1" by blast
      moreover have "count (mset [1..<m + 1]) k \<le> 1"
        by (metis distinct_upt distinct_count_atmost_1 le_refl zero_le_one)
      ultimately show ?thesis by (simp add: count_mset)
    next
      case False
      then have "count (mset [1..<m + 1]) k = 0" by (metis count_eq_zero_iff set_mset_mset)
      then show ?thesis by (simp only: zero_le)
    qed
  qed
  moreover have "size (mset [1..<m + 1]) = size (mset xs)" using assms(2) by simp
  ultimately show ?thesis
    by (metis mset_subset_size order_less_irrefl subset_mset.le_less)
qed

lemma validGrid_mset:
  "validGrid n g \<longleftrightarrow> square n g \<and> mset (map number (concat g)) = mset [1..<n * n + 1]"
proof
  assume v: "validGrid n g"
  then have sq: "square n g" by (simp add: validGrid_def)
  then have "length (map number (concat g)) = n * n"
    by (auto simp: square_def length_concat_rows)
  with v show "square n g \<and> mset (map number (concat g)) = mset [1..<n * n + 1]"
    using mset_upt_count[of "map number (concat g)" "n * n"] by (simp add: validGrid_def)
next
  assume a: "square n g \<and> mset (map number (concat g)) = mset [1..<n * n + 1]"
  have "\<And>k. k \<in> set [1..<n * n + 1] \<Longrightarrow> count_list (map number (concat g)) k = 1"
  proof -
    fix k assume k: "k \<in> set [1..<n * n + 1]"
    have "count_list (map number (concat g)) k = count (mset [1..<n * n + 1]) k"
      using a by (metis count_mset)
    also have "\<dots> = 1" using k by (metis distinct_upt distinct_count_atmost_1)
    finally show "count_list (map number (concat g)) k = 1" .
  qed
  with a show "validGrid n g" by (simp add: validGrid_def list_all_iff del: upt_Suc)
qed

lemma validGrid_distinct:
  assumes "validGrid n g" "r < n" "c < n" "r' < n" "c' < n" "(r, c) \<noteq> (r', c')"
  shows "number (g ! r ! c) \<noteq> number (g ! r' ! c')"
proof -
  have sq: "square n g" and ms: "mset (map number (concat g)) = mset [1..<n * n + 1]"
    using assms(1) by (simp_all add: validGrid_mset)
  have rows: "list_all (\<lambda>row. length row = n) g" "length g = n" using sq by (simp_all add: square_def)
  have d: "distinct (map number (concat g))"
    using ms by (metis distinct_upt mset_eq_imp_distinct_iff)
  have len: "length (concat g) = n * n" using rows by (simp add: length_concat_rows)
  have i: "r * n + c < n * n" "r' * n + c' < n * n" using assms by (simp_all add: cell_index_less)
  have "r * n + c \<noteq> r' * n + c'" using assms by (simp add: cell_index_eq)
  moreover have "(map number (concat g) ! (r * n + c) = map number (concat g) ! (r' * n + c'))
                   = (r * n + c = r' * n + c')"
    by (intro nth_eq_iff_index_eq[OF d]) (simp_all add: len i)
  ultimately have "number (concat g ! (r * n + c)) \<noteq> number (concat g ! (r' * n + c'))"
    using i len by simp
  then show ?thesis
    using concat_nth_square[OF rows(1), of r c] concat_nth_square[OF rows(1), of r' c'] assms rows
    by simp
qed


lemma swapTiles_valid:
  assumes "validGrid n g" "row < n" "col < n" "selRow < n" "selCol < n"
    and "swapTiles g row col selRow selCol = Inr g'"
  shows "validGrid n g'"
proof -
  have sq: "square n g" using assms(1) by (simp add: validGrid_def)
  have "mset (map number (concat g')) = image_mset number (mset (concat g'))" by simp
  also have "\<dots> = image_mset number (mset (concat g))"
    by (simp only: swapTiles_mset[OF sq assms(2-6)])
  finally show ?thesis
    using assms(1) swapTiles_square[OF sq assms(6)] by (simp add: validGrid_mset)
qed

lemma swapTiles_changes:
  assumes "validGrid n g" "row < n" "col < n" "selRow < n" "selCol < n"
    and "(row, col) \<noteq> (selRow, selCol)"
    and "swapTiles g row col selRow selCol = Inr g'"
  shows "g' \<noteq> g"
proof
  assume "g' = g"
  have sq: "square n g" using assms(1) by (simp add: validGrid_def)
  then have len: "length g = n" "length (g ! row) = n"
    using assms(2) by (simp_all add: square_def list_all_length)
  have "g' ! row ! col = g ! selRow ! selCol"
    using swapTiles_nth[OF assms(7), of row col] assms(2,3,6) len by auto
  with \<open>g' = g\<close> have "number (g ! row ! col) = number (g ! selRow ! selCol)" by simp
  with validGrid_distinct[OF assms(1-6)] show False by simp
qed

text \<open>
  Claim C3. On a valid board, for a tap inside the board and a selection inside the
  board, \<open>handleTilePress\<close> returns, and it changes the grid and adds exactly one to the
  move counter if and only if the phase is Playing, a cell is selected, and the tapped
  cell is another cell and an orthogonal neighbour of the selected one; the new grid is
  then the old one with the two tiles exchanged. In every other case (first selection,
  deselection, a tap that is no neighbour, a call outside Playing) the grid and the move
  counter stay as they are.
\<close>

theorem handleTilePress_swap_iff:
  assumes "validGrid (gridSize s) (grid s)" "row < gridSize s" "col < gridSize s"
    and "selectionInside s"
  shows "\<exists>s'. handleTilePress today s row col = Inr s'
           \<and> ((grid s' \<noteq> grid s \<and> moves s' = moves s + 1) \<longleftrightarrow> swapDue s row col)
           \<and> (swapDue s row col \<longrightarrow>
                 (\<exists>sel. selectedTile s = Some sel
                    \<and> swapTiles (grid s) row col (fst sel) (snd sel) = Inr (grid s')))
           \<and> (\<not> swapDue s row col \<longrightarrow> grid s' = grid s \<and> moves s' = moves s)"
proof (cases "swapDue s row col")
  case False
  from handleTilePress_no_swap[OF False, of today] obtain s' where
    "handleTilePress today s row col = Inr s'" "grid s' = grid s" "moves s' = moves s" by blast
  with False show ?thesis by simp
next
  case True
  then obtain selRow selCol where
    p: "gameState s = Playing" and sel: "selectedTile s = Some (selRow, selCol)"
    and ne: "(row, col) \<noteq> (selRow, selCol)" and orth: "orthogonal (row, col) (selRow, selCol)"
    by (auto simp: swapDue_def split: option.splits)
  have sq: "square (gridSize s) (grid s)" using assms(1) by (simp add: validGrid_def)
  have inside: "selRow < gridSize s" "selCol < gridSize s"
    using assms(4) sel by (simp_all add: selectionInside_def)
  from handleTilePress_swap[OF p sel orth sq assms(2,3) inside, of today]
  obtain g' won where g': "swapTiles (grid s) row col selRow selCol = Inr g'"
    and h: "handleTilePress today s row col =
               Inr (if won then handleWin today s (s\<lparr>grid := g', moves := moves s + 1, selectedTile := None\<rparr>)
                    else s\<lparr>grid := g', moves := moves s + 1, selectedTile := None\<rparr>)"
    by blast
  have "g' \<noteq> grid s"
    by (rule swapTiles_changes[OF assms(1-3) inside ne g'])
  with True sel g' h show ?thesis by (cases won) simp_all
qed

theorem handleTilePress_swap_iff_witness:
  "validGrid 3 near3 \<and> selectionInside (ava\<lparr>selectedTile := Some (2, 1)\<rparr>)
   \<and> swapDue (ava\<lparr>selectedTile := Some (2, 1)\<rparr>) 2 2
   \<and> (\<exists>s'. handleTilePress ''1/1/2025'' (ava\<lparr>selectedTile := Some (2, 1)\<rparr>) 2 2 = Inr s'
          \<and> grid s' = solved3 \<and> grid s' \<noteq> near3 \<and> moves s' = 1)
   \<and> \<not> swapDue (ava\<lparr>selectedTile := Some (1, 1)\<rparr>) 2 2
   \<and> (\<exists>s'. handleTilePress ''1/1/2025'' (ava\<lparr>selectedTile := Some (1, 1)\<rparr>) 2 2 = Inr s'
          \<and> grid s' = near3 \<and> moves s' = 0)"
proof -
  have v: "validGrid 3 near3"
    by (simp add: validGrid_def square_def near3_def plain_def upt_rec numeral_eq_Suc)
  have sw: "swapTiles near3 2 2 2 1 = Inr solved3"
    by (simp add: swapTiles_def solved3_def near3_def Let_def numeral_eq_Suc)
  have a: "swapDue (ava\<lparr>selectedTile := Some (2, 1)\<rparr>) 2 2"
    and b: "\<not> swapDue (ava\<lparr>selectedTile := Some (1, 1)\<rparr>) 2 2"
    by (simp_all add: swapDue_def ava_def orthogonal_def)
  from handleTilePress_swap_iff[of "ava\<lparr>selectedTile := Some (2, 1)\<rparr>" 2 2 "''1/1/2025''"]
       handleTilePress_swap_iff[of "ava\<lparr>selectedTile := Some (1, 1)\<rparr>" 2 2 "''1/1/2025''"]
  show ?thesis using v sw a b by (auto simp: ava_def selectionInside_def)
qed

subsection \<open>Swapping a pair twice\<close>






text \<open>
  Claim C1 at Ava's session: no move made yet, 29 seconds left, and the swap of the last
  two tiles completes the board. The session is Won and the move counter is 1, while the
  score stored under the key 3x3 has 0 moves (and the 29 seconds of the clock):
  \<open>handleWin\<close> reads the \<open>moves\<close> of the render, which \<open>setMoves(moves + 1)\<close> has not
  changed.
\<close>

theorem handleTilePress_win_records_stale_moves:
  "\<exists>s'. handleTilePress ''1/1/2025'' (ava\<lparr>selectedTile := Some (2, 1)\<rparr>) 2 2 = Inr s'
     \<and> gameState s' = Won \<and> grid s' = solved3 \<and> moves s' = 1
     \<and> highScores s' ''3x3'' =
         Some [\<lparr>name = ''Ava'', scoreMoves = 0, timeRemaining = 29, date = ''1/1/2025''\<rparr>]"
  by (simp add: handleTilePress_def ava_def isAdjacent_def swapTiles_def near3_def solved3_def
        plain_def checkWin_def checkWin_rows.simps checkWin_cols.simps handleWin_def Let_def
        updatedScores_def scoreKey_def showNat.simps alert_def playSound_def)

subsection \<open>The grid factory\<close>

lemma concat_rows_map:
  "concat (map (\<lambda>i. map (\<lambda>j. f (i * n + j)) [0..<n]) [0..<m]) = map f [0..<m * n]"
proof (induction m)
  case 0 show ?case by simp
next
  case (Suc m)
  have "map f [m * n..<m * n + n] = map f (map (\<lambda>j. j + m * n) [0..<n])"
    using map_add_upt[of "m * n" n] by (simp only: add.commute[of "m * n" n])
  also have "\<dots> = map (\<lambda>j. f (m * n + j)) [0..<n]"
    by (simp only: map_map comp_def add.commute[of _ "m * n"])
  finally have row: "map (\<lambda>j. f (m * n + j)) [0..<n] = map f [m * n..<m * n + n]" by simp
  have split: "[0..<Suc m * n] = [0..<m * n] @ [m * n..<m * n + n]"
    using upt_add_eq_append[of 0 "m * n" n] by (simp only: mult_Suc add.commute[of n "m * n"] le0)
  have "concat (map (\<lambda>i. map (\<lambda>j. f (i * n + j)) [0..<n]) [0..<Suc m]) =
        concat (map (\<lambda>i. map (\<lambda>j. f (i * n + j)) [0..<n]) [0..<m]) @ map (\<lambda>j. f (m * n + j)) [0..<n]"
    by simp
  also have "\<dots> = map f [0..<m * n] @ map f [m * n..<m * n + n]"
    by (simp only: Suc.IH row)
  also have "\<dots> = map f [0..<Suc m * n]"
    by (simp only: split map_append)
  finally show ?case .
qed


lemma newGridOf_concat:
  "concat (newGridOf n colors shuffled) =
     map (\<lambda>index. \<lparr>number = shuffled ! index, color = colors ! (shuffled ! index - 1)\<rparr>) [0..<n * n]"
  unfolding newGridOf_def Let_def
  by (rule concat_rows_map[where f = "\<lambda>index. \<lparr>number = shuffled ! index, color = colors ! (shuffled ! index - 1)\<rparr>"])

lemma newGridOf_numbers:
  assumes "length shuffled = n * n"
  shows "map number (concat (newGridOf n colors shuffled)) = shuffled"
proof -
  have "map number (concat (newGridOf n colors shuffled)) = map (\<lambda>index. shuffled ! index) [0..<n * n]"
    by (simp add: newGridOf_concat comp_def)
  also have "\<dots> = shuffled" using assms by (metis map_nth)
  finally show ?thesis .
qed

lemma numbers_upt: "map (\<lambda>i. i + 1) [0..<m] = [1..<m + 1]"
  using map_Suc_upt[of 0 m] by simp

lemma shuffled_mset:
  assumes "rearranges f"
  shows "mset (f (map (\<lambda>i. i + 1) [0..<m])) = mset [1..<m + 1]"
    and "length (f (map (\<lambda>i. i + 1) [0..<m])) = m"
proof -
  show a: "mset (f (map (\<lambda>i. i + 1) [0..<m])) = mset [1..<m + 1]"
    using assms by (simp only: rearranges_def numbers_upt)
  from mset_eq_length[OF a] show "length (f (map (\<lambda>i. i + 1) [0..<m])) = m" by simp
qed

lemma initializeGrid_fields [simp]:
  "grid (initializeGrid r s) =
     newGridOf (gridSize s) (generateDistinctColors r (gridSize s * gridSize s))
       (sortNumbers r (map (\<lambda>i. i + 1) [0..<gridSize s * gridSize s]))"
  "targetGrid (initializeGrid r s) =
     targetOf (gridSize s) (generateDistinctColors r (gridSize s * gridSize s))"
  "gridSize (initializeGrid r s) = gridSize s"
  "gameState (initializeGrid r s) = gameState s"
  "moves (initializeGrid r s) = moves s"
  "timeLeft (initializeGrid r s) = timeLeft s"
  "selectedTile (initializeGrid r s) = selectedTile s"
  "signals (initializeGrid r s) = signals s"
  by (simp_all add: initializeGrid_def Let_def)

lemma initializeGrid_valid:
  assumes "rearranges (sortNumbers r)"
  shows "validGrid (gridSize s) (grid (initializeGrid r s))"
  using shuffled_mset[OF assms, of "gridSize s * gridSize s"]
  by (simp add: validGrid_mset newGridOf_square newGridOf_numbers del: upt_Suc)

lemma handleTilePress_valid:
  assumes "validGrid (gridSize s) (grid s)" "row < gridSize s" "col < gridSize s"
    and "selectionInside s"
  shows "\<exists>s'. handleTilePress today s row col = Inr s' \<and> gridSize s' = gridSize s
           \<and> validGrid (gridSize s') (grid s')"
proof (cases "swapDue s row col")
  case False
  from handleTilePress_no_swap[OF False, of today] assms(1) show ?thesis by auto
next
  case True
  then obtain selRow selCol where
    p: "gameState s = Playing" and sel: "selectedTile s = Some (selRow, selCol)"
    and orth: "orthogonal (row, col) (selRow, selCol)"
    by (auto simp: swapDue_def split: option.splits)
  have sq: "square (gridSize s) (grid s)" using assms(1) by (simp add: validGrid_def)
  have inside: "selRow < gridSize s" "selCol < gridSize s"
    using assms(4) sel by (simp_all add: selectionInside_def)
  from handleTilePress_swap[OF p sel orth sq assms(2,3) inside, of today]
  obtain g' won where g': "swapTiles (grid s) row col selRow selCol = Inr g'"
    and h: "handleTilePress today s row col =
               Inr (if won then handleWin today s (s\<lparr>grid := g', moves := moves s + 1, selectedTile := None\<rparr>)
                    else s\<lparr>grid := g', moves := moves s + 1, selectedTile := None\<rparr>)"
    by blast
  have "validGrid (gridSize s) g'"
    by (rule swapTiles_valid[OF assms(1-3) inside g'])
  with h show ?thesis by (cases won) simp_all
qed

text \<open>
  Claim C4. Whatever the numbers' sort does, as long as it rearranges its array, the grid
  of \<open>initializeGrid\<close> is valid: it has the size of the board and each number from 1 to
  the square of the size is on exactly one tile. A tap inside a valid board, with the
  selection inside the board, returns a state whose grid is valid again; so every swap
  of the move engine keeps the invariant.
\<close>

theorem grid_one_tile_per_number:
  "(rearranges (sortNumbers r) \<longrightarrow> validGrid (gridSize s) (grid (initializeGrid r s)))
   \<and> (validGrid (gridSize s) (grid s) \<and> row < gridSize s \<and> col < gridSize s \<and> selectionInside s
        \<longrightarrow> (\<exists>s'. handleTilePress today s row col = Inr s' \<and> gridSize s' = gridSize s
                 \<and> validGrid (gridSize s') (grid s')))"
  using initializeGrid_valid[of r s] handleTilePress_valid[of s row col today] by blast

lemma rearranges_rev: "rearranges rev"
  by (simp add: rearranges_def)

lemma validGrid_near3: "validGrid 3 near3"
  by (simp add: validGrid_def square_def near3_def plain_def upt_rec numeral_eq_Suc)



lemma shuffled_fixedRand:
  "sortNumbers fixedRand (map (\<lambda>i. i + 1) [0..<3 * 3]) = [9, 8, 7, 6, 5, 4, 3, 2, 1]"
  by (simp add: fixedRand_def upt_rec numeral_eq_Suc)

theorem grid_one_tile_per_number_witness:
  "rearranges (sortNumbers fixedRand)
   \<and> validGrid 3 (grid (initializeGrid fixedRand ava))
   \<and> map number (concat (grid (initializeGrid fixedRand ava))) = [9, 8, 7, 6, 5, 4, 3, 2, 1]
   \<and> validGrid 3 near3 \<and> selectionInside (ava\<lparr>selectedTile := Some (0, 0)\<rparr>)
   \<and> (\<exists>s'. handleTilePress ''1/1/2025'' (ava\<lparr>selectedTile := Some (0, 0)\<rparr>) 0 1 = Inr s'
          \<and> map (map number) (grid s') = [[2, 1, 3], [4, 5, 6], [7, 9, 8]]
          \<and> validGrid 3 (grid s'))"
proof -
  let ?s0 = "ava\<lparr>selectedTile := Some (0, 0)\<rparr>"
  have r: "rearranges (sortNumbers fixedRand)" by (simp add: fixedRand_def rearranges_rev)
  have f: "gridSize ava = 3" "gridSize ?s0 = 3" "grid ?s0 = near3"
    by (simp_all add: ava_def)
  have "map number (concat (newGridOf 3 (generateDistinctColors fixedRand (3 * 3)) [9, 8, 7, 6, 5, 4, 3, 2, 1]))
          = [9, 8, 7, 6, 5, 4, 3, 2, 1]"
    by (rule newGridOf_numbers) simp
  then have n: "map number (concat (grid (initializeGrid fixedRand ava))) = [9, 8, 7, 6, 5, 4, 3, 2, 1]"
    unfolding initializeGrid_fields f shuffled_fixedRand .
  have e: "handleTilePress ''1/1/2025'' ?s0 0 1 =
        Inr (ava\<lparr>grid := map (map plain) [[2, 1, 3], [4, 5, 6], [7, 9, 8]], moves := 1\<rparr>)"
    by (simp add: handleTilePress_def ava_def isAdjacent_def
          swapTiles_def near3_def plain_def checkWin_def checkWin_rows.simps checkWin_cols.simps Let_def)
  have i: "selectionInside ?s0" by (simp add: selectionInside_def ava_def)
  from grid_one_tile_per_number[where r = fixedRand and s = ava] r
  have "validGrid (gridSize ava) (grid (initializeGrid fixedRand ava))" by blast
  then have a: "validGrid 3 (grid (initializeGrid fixedRand ava))" by (simp only: f)
  have "validGrid (gridSize ?s0) (grid ?s0) \<and> 0 < gridSize ?s0 \<and> 1 < gridSize ?s0 \<and> selectionInside ?s0"
    using validGrid_near3 i by (simp only: f) simp
  with grid_one_tile_per_number[where s = ?s0 and row = 0 and col = 1 and today = "''1/1/2025''"]
  obtain s' where s': "handleTilePress ''1/1/2025'' ?s0 0 1 = Inr s'" "gridSize s' = gridSize ?s0"
    "validGrid (gridSize s') (grid s')" by blast
  from s'(2,3) have v: "validGrid 3 (grid s')" by (simp only: f)
  from s'(1) e have "s' = ava\<lparr>grid := map (map plain) [[2, 1, 3], [4, 5, 6], [7, 9, 8]], moves := 1\<rparr>"
    by simp
  then have "map (map number) (grid s') = [[2, 1, 3], [4, 5, 6], [7, 9, 8]]"
    by (simp add: plain_def)
  with s'(1) v have "\<exists>s'. handleTilePress ''1/1/2025'' ?s0 0 1 = Inr s'
          \<and> map (map number) (grid s') = [[2, 1, 3], [4, 5, 6], [7, 9, 8]]
          \<and> validGrid 3 (grid s')" by (intro exI[of _ s'] conjI)
  with r a n validGrid_near3 i show ?thesis by (intro conjI)
qed

subsection \<open>Colours of the tiles\<close>

lemma generateDistinctColors_length:
  assumes "rearranges (sortColors r)"
  shows "length (generateDistinctColors r cnt) = cnt"
proof -
  have "mset (generateDistinctColors r cnt) = mset (pushedColors (random r) cnt)"
    using assms by (simp add: rearranges_def generateDistinctColors_def)
  from mset_eq_length[OF this] show ?thesis by (simp add: pushedColors_def)
qed

lemma newGridOf_tile:
  assumes "t \<in> set (concat (newGridOf n colors shuffled))"
  shows "\<exists>index < n * n. number t = shuffled ! index \<and> color t = colors ! (number t - 1)"
  using assms by (auto simp: newGridOf_concat)

text \<open>
  Claim C8. Let both sorts rearrange their arrays, and let \<open>colors\<close> be the array that
  \<open>generateDistinctColors\<close> returned for this grid. For every number k from 1 to the
  square of the size, the initial grid has a tile with the number k, the k-th cell of the
  target grid (row by row) has the number k and the colour \<open>colors[k - 1]\<close>, and every tile
  of the initial grid with the number k has that same colour: the colour follows the
  number, not the place the shuffle gave the tile.
\<close>

theorem color_follows_number:
  assumes "rearranges (sortNumbers r)" "rearranges (sortColors r)"
  shows "length (generateDistinctColors r (gridSize s * gridSize s)) = gridSize s * gridSize s
   \<and> (\<forall>k \<in> {1..gridSize s * gridSize s}.
         (\<exists>t \<in> set (concat (grid (initializeGrid r s))). number t = k)
       \<and> concat (targetGrid (initializeGrid r s)) ! (k - 1) =
            \<lparr>number = k, color = generateDistinctColors r (gridSize s * gridSize s) ! (k - 1)\<rparr>
       \<and> (\<forall>t \<in> set (concat (grid (initializeGrid r s))).
             number t = k \<longrightarrow>
               color t = generateDistinctColors r (gridSize s * gridSize s) ! (k - 1)
             \<and> color t = color (concat (targetGrid (initializeGrid r s)) ! (k - 1))))"
proof (intro conjI ballI impI)
  let ?n = "gridSize s"
  let ?colors = "generateDistinctColors r (?n * ?n)"
  show "length ?colors = ?n * ?n" by (rule generateDistinctColors_length[OF assms(2)])
  fix k assume k: "k \<in> {1..?n * ?n}"
  then have k1: "k - 1 < ?n * ?n" "k - 1 + 1 = k" by auto
  have "validGrid ?n (grid (initializeGrid r s))" by (rule initializeGrid_valid[OF assms(1)])
  then have "mset (map number (concat (grid (initializeGrid r s)))) = mset [1..<?n * ?n + 1]"
    by (simp only: validGrid_mset)
  then have "set (map number (concat (grid (initializeGrid r s)))) = set [1..<?n * ?n + 1]"
    by (rule mset_eq_setD)
  moreover have "k \<in> set [1..<?n * ?n + 1]" using k by (simp only: set_upt) auto
  ultimately have "k \<in> set (map number (concat (grid (initializeGrid r s))))" by simp
  then show "\<exists>t \<in> set (concat (grid (initializeGrid r s))). number t = k" by auto
  show tg: "concat (targetGrid (initializeGrid r s)) ! (k - 1) = \<lparr>number = k, color = ?colors ! (k - 1)\<rparr>"
    using targetOf_concat_nth[OF k1(1), of ?colors] k1(2) by simp
  fix t assume t: "t \<in> set (concat (grid (initializeGrid r s)))" and nk: "number t = k"
  from t have "color t = ?colors ! (number t - 1)"
    using newGridOf_tile[of t ?n ?colors] by auto
  with nk show ct: "color t = ?colors ! (k - 1)" by simp
  with tg show "color t = color (concat (targetGrid (initializeGrid r s)) ! (k - 1))" by simp
qed


lemma rearranges_fixedRand:
  "rearranges (sortNumbers fixedRand)" "rearranges (sortColors fixedRand)"
  by (simp_all add: fixedRand_def rearranges_rev)

theorem color_follows_number_witness:
  "rearranges (sortNumbers fixedRand) \<and> rearranges (sortColors fixedRand)
   \<and> length (generateDistinctColors fixedRand (3 * 3)) = 3 * 3
   \<and> number (grid (initializeGrid fixedRand ava) ! 0 ! 0) = 9
   \<and> number (targetGrid (initializeGrid fixedRand ava) ! 2 ! 2) = 9
   \<and> color (grid (initializeGrid fixedRand ava) ! 0 ! 0) = generateDistinctColors fixedRand (3 * 3) ! 8
   \<and> color (grid (initializeGrid fixedRand ava) ! 0 ! 0)
       = color (targetGrid (initializeGrid fixedRand ava) ! 2 ! 2)"
proof -
  let ?g = "grid (initializeGrid fixedRand ava)" and ?tg = "targetGrid (initializeGrid fixedRand ava)"
  let ?colors = "generateDistinctColors fixedRand (3 * 3)"
  have f: "gridSize ava = 3" by (simp add: ava_def)
  have g00: "?g ! 0 ! 0 = \<lparr>number = 9, color = ?colors ! 8\<rparr>"
    unfolding initializeGrid_fields f shuffled_fixedRand
    using newGridOf_nth[of 0 3 0 ?colors "[9, 8, 7, 6, 5, 4, 3, 2, 1]"] by simp
  have t22: "?tg ! 2 ! 2 = \<lparr>number = 9, color = ?colors ! 8\<rparr>"
    unfolding initializeGrid_fields f
    using targetOf_nth[of 2 3 2 ?colors] by simp
  have sq: "square 3 ?g" "square 3 ?tg"
    unfolding initializeGrid_fields f by (rule newGridOf_square, rule targetOf_square)
  have c8: "concat ?tg ! 8 = ?tg ! 2 ! 2"
    using concat_square_nth[OF sq(2), of 8] by simp
  have "concat ?g ! 0 = ?g ! 0 ! 0"
    using concat_square_nth[OF sq(1), of 0] by simp
  moreover have "length (concat ?g) = 3 * 3"
    using sq(1) by (auto simp: square_def length_concat_rows)
  ultimately have mem: "?g ! 0 ! 0 \<in> set (concat ?g)"
    using nth_mem[of 0 "concat ?g"] by simp
  note th = color_follows_number[OF rearranges_fixedRand, of ava, unfolded f]
  have len: "length ?colors = 3 * 3" using th by (rule conjunct1)
  have nine: "9 \<in> {1..3 * (3::nat)}" by simp
  note all9 = th[THEN conjunct2, THEN bspec, OF nine, THEN conjunct2, THEN conjunct2]
  have n9: "number (?g ! 0 ! 0) = 9" "number (?tg ! 2 ! 2) = 9"
    by (simp_all only: g00 t22 tile.select_convs)
  have e8: "(9::nat) - 1 = 8" by simp
  note cc = all9[THEN bspec, OF mem, THEN mp, OF n9(1), unfolded e8]
  have "color (?g ! 0 ! 0) = ?colors ! 8" by (rule cc[THEN conjunct1])
  moreover have "color (?g ! 0 ! 0) = color (?tg ! 2 ! 2)" by (rule cc[THEN conjunct2, unfolded c8])
  ultimately show ?thesis using len rearranges_fixedRand n9 by (intro conjI)
qed

subsection \<open>Starting a game\<close>




subsection \<open>The score ledger\<close>

lemma updatedScores_key:
  "updatedScores hs key newScore key =
     Some (take 5 (sort_key scoreMoves ((case hs key of None \<Rightarrow> [] | Some l \<Rightarrow> l) @ [newScore])))"
  by (simp add: updatedScores_def Let_def)

lemma handleWin_highScores:
  "highScores (handleWin today c s) =
     updatedScores (highScores c) (scoreKey (gridSize c))
       \<lparr>name = playerName c, scoreMoves = moves c, timeRemaining = timeLeft c, date = today\<rparr>"
  by (simp add: handleWin_def Let_def alert_def playSound_def)

lemma filter_take_prefix: "prefix (filter P (take n xs)) (filter P xs)"
  by (metis append_take_drop_id filter_append prefixI)

text \<open>
  Claim C5. After \<open>handleWin\<close> the list stored under the key of the current size is the
  old list with the new score at its end, stably sorted by moves and cut to five entries:
  it is ascending in moves, has at most five entries, and the scores of equal moves stand
  in the order in which they stood before (the new one last). Six wins of Ava with 10, 3,
  7, 1, 9 and 5 moves, recorded one after the other on the key 3x3, leave the moves
  1, 3, 5, 7, 9.
\<close>

theorem recorded_scores_sorted_top5:
  "(\<exists>l. highScores (handleWin today c s) (scoreKey (gridSize c)) = Some l
      \<and> l = take 5 (sort_key scoreMoves
                ((case highScores c (scoreKey (gridSize c)) of None \<Rightarrow> [] | Some old \<Rightarrow> old)
                 @ [\<lparr>name = playerName c, scoreMoves = moves c, timeRemaining = timeLeft c, date = today\<rparr>]))
      \<and> sorted (map scoreMoves l) \<and> length l \<le> 5
      \<and> (\<forall>m. prefix (filter (\<lambda>x. scoreMoves x = m) l)
                     (filter (\<lambda>x. scoreMoves x = m)
                        ((case highScores c (scoreKey (gridSize c)) of None \<Rightarrow> [] | Some old \<Rightarrow> old)
                         @ [\<lparr>name = playerName c, scoreMoves = moves c, timeRemaining = timeLeft c, date = today\<rparr>]))))
   \<and> map scoreMoves
        (the (highScores
               (foldl (\<lambda>st m. handleWin ''1/1/2025'' (st\<lparr>moves := m\<rparr>) (st\<lparr>moves := m\<rparr>))
                  ava [10, 3, 7, 1, 9, 5])
               ''3x3''))
       = [1, 3, 5, 7, 9]"
proof (intro conjI exI)
  let ?all = "(case highScores c (scoreKey (gridSize c)) of None \<Rightarrow> [] | Some old \<Rightarrow> old)
                 @ [\<lparr>name = playerName c, scoreMoves = moves c, timeRemaining = timeLeft c, date = today\<rparr>]"
  let ?l = "take 5 (sort_key scoreMoves ?all)"
  show "highScores (handleWin today c s) (scoreKey (gridSize c)) = Some ?l"
    by (simp only: handleWin_highScores updatedScores_key)
  show "?l = ?l" by (rule refl)
  show "sorted (map scoreMoves ?l)"
    by (simp only: take_map[symmetric] sorted_wrt_take sorted_sort_key)
  show "length ?l \<le> 5" by simp
  show "\<forall>m. prefix (filter (\<lambda>x. scoreMoves x = m) ?l) (filter (\<lambda>x. scoreMoves x = m) ?all)"
  proof
    fix m
    have "prefix (filter (\<lambda>x. scoreMoves x = m) ?l) (filter (\<lambda>x. scoreMoves x = m) (sort_key scoreMoves ?all))"
      by (rule filter_take_prefix)
    then show "prefix (filter (\<lambda>x. scoreMoves x = m) ?l) (filter (\<lambda>x. scoreMoves x = m) ?all)"
      by (simp only: sort_key_stable)
  qed
  show "map scoreMoves
        (the (highScores
               (foldl (\<lambda>st m. handleWin ''1/1/2025'' (st\<lparr>moves := m\<rparr>) (st\<lparr>moves := m\<rparr>))
                  ava [10, 3, 7, 1, 9, 5])
               ''3x3''))
       = [1, 3, 5, 7, 9]"
  proof -
    define win where "win = (\<lambda>st m. handleWin ''1/1/2025'' (st\<lparr>moves := m\<rparr>) (st\<lparr>moves := m\<rparr>))"
    let ?sc = "\<lambda>m. \<lparr>name = ''Ava'', scoreMoves = m, timeRemaining = 29, date = ''1/1/2025''\<rparr>"
    have k: "scoreKey 3 = ''3x3''" by (simp add: scoreKey_def showNat.simps)
    have keep: "\<And>st m. gridSize (win st m) = gridSize st \<and> playerName (win st m) = playerName st
                  \<and> timeLeft (win st m) = timeLeft st"
      by (simp add: win_def handleWin_def Let_def alert_def playSound_def)
    have step: "\<And>st m old. gridSize st = 3 \<Longrightarrow> playerName st = ''Ava'' \<Longrightarrow> timeLeft st = 29
                  \<Longrightarrow> highScores st ''3x3'' = Some old
                  \<Longrightarrow> highScores (win st m) ''3x3'' = Some (take 5 (sort_key scoreMoves (old @ [?sc m])))"
      using k by (simp add: win_def handleWin_highScores updatedScores_key)
    have first: "highScores (win ava 10) ''3x3'' = Some [?sc 10]"
      using k by (simp add: win_def handleWin_highScores updatedScores_key ava_def)
    have a0: "gridSize ava = 3 \<and> playerName ava = ''Ava'' \<and> timeLeft ava = 29" by (simp add: ava_def)
    let ?s1 = "win ava 10"
    let ?s2 = "win ?s1 3"
    let ?s3 = "win ?s2 7"
    let ?s4 = "win ?s3 1"
    let ?s5 = "win ?s4 9"
    let ?s6 = "win ?s5 5"
    have l2: "highScores ?s2 ''3x3'' = Some [?sc 3, ?sc 10]"
      using step[of ?s1 "[?sc 10]" 3] first keep a0 by simp
    have l3: "highScores ?s3 ''3x3'' = Some [?sc 3, ?sc 7, ?sc 10]"
      using step[of ?s2 "[?sc 3, ?sc 10]" 7] l2 keep a0 by simp
    have l4: "highScores ?s4 ''3x3'' = Some [?sc 1, ?sc 3, ?sc 7, ?sc 10]"
      using step[of ?s3 "[?sc 3, ?sc 7, ?sc 10]" 1] l3 keep a0 by simp
    have l5: "highScores ?s5 ''3x3'' = Some [?sc 1, ?sc 3, ?sc 7, ?sc 9, ?sc 10]"
      using step[of ?s4 "[?sc 1, ?sc 3, ?sc 7, ?sc 10]" 9] l4 keep a0 by simp
    have l6: "highScores ?s6 ''3x3'' = Some [?sc 1, ?sc 3, ?sc 5, ?sc 7, ?sc 9]"
      using step[of ?s5 "[?sc 1, ?sc 3, ?sc 7, ?sc 9, ?sc 10]" 5] l5 keep a0 by simp
    have "foldl (\<lambda>st m. handleWin ''1/1/2025'' (st\<lparr>moves := m\<rparr>) (st\<lparr>moves := m\<rparr>))
                  ava [10, 3, 7, 1, 9, 5] = ?s6"
      by (simp only: foldl_Cons foldl_Nil win_def)
    then show ?thesis by (simp only: l6 option.sel) simp
  qed
qed


theorem recorded_scores_sorted_top5_witness:
  "highScores
     (handleWin ''2/1/2025''
        (ava\<lparr>highScores := [''3x3'' \<mapsto> [\<lparr>name = ''Bob'', scoreMoves = 0, timeRemaining = 5, date = ''1/1/2025''\<rparr>]]\<rparr>)
        ava) ''3x3''
   = Some [\<lparr>name = ''Bob'', scoreMoves = 0, timeRemaining = 5, date = ''1/1/2025''\<rparr>,
           \<lparr>name = ''Ava'', scoreMoves = 0, timeRemaining = 29, date = ''2/1/2025''\<rparr>]"
proof -
  let ?c = "ava\<lparr>highScores := [''3x3'' \<mapsto> [\<lparr>name = ''Bob'', scoreMoves = 0, timeRemaining = 5, date = ''1/1/2025''\<rparr>]]\<rparr>"
  have k: "scoreKey (gridSize ?c) = ''3x3''" by (simp add: scoreKey_def showNat.simps ava_def)
  have f: "playerName ?c = ''Ava''" "moves ?c = 0" "timeLeft ?c = 29" by (simp_all add: ava_def)
  from recorded_scores_sorted_top5[of "''2/1/2025''" ?c ava, THEN conjunct1]
  obtain l where "highScores (handleWin ''2/1/2025'' ?c ava) (scoreKey (gridSize ?c)) = Some l"
    and "l = take 5 (sort_key scoreMoves
                ((case highScores ?c (scoreKey (gridSize ?c)) of None \<Rightarrow> [] | Some old \<Rightarrow> old)
                 @ [\<lparr>name = playerName ?c, scoreMoves = moves ?c, timeRemaining = timeLeft ?c, date = ''2/1/2025''\<rparr>]))"
    by blast
  then show ?thesis unfolding k f by simp
qed

subsection \<open>The session clock\<close>

lemma handleGameOver_fields [simp]:
  "gameState (handleGameOver s) = GameOver"
  "timeLeft (handleGameOver s) = timeLeft s"
  "timerRef (handleGameOver s) = None"
  "signals (handleGameOver s) =
     signals s @ (if soundEnabled s then [PlaySound ''gameover''] else []) @ [Alert ''Time's Up!'']"
  by (simp_all add: handleGameOver_def alert_def playSound_def)

lemma handleGameOver_timerRef:
  "handleGameOver (s\<lparr>timerRef := x\<rparr>) = handleGameOver s"
  "(handleGameOver s)\<lparr>timerRef := None\<rparr> = handleGameOver s"
  by (simp_all add: handleGameOver_def alert_def playSound_def)

lemma rerender_playing:
  assumes "gameState s = Playing" "0 < timeLeft s"
  shows "rerender s = s\<lparr>timerRef := Some (timeLeft s)\<rparr>"
  using assms by (subst rerender.simps) (simp add: timerEffect_def timerCleanup_def Let_def)

lemma rerender_idle:
  assumes "gameState s \<noteq> Playing \<or> timeLeft s < 0"
  shows "rerender s = s\<lparr>timerRef := None\<rparr>"
  using assms by (subst rerender.simps) (auto simp: timerEffect_def timerCleanup_def Let_def)

lemma rerender_timeout:
  assumes "gameState s = Playing" "timeLeft s = 0"
  shows "rerender s = handleGameOver s"
proof -
  have "rerender s = rerender (handleGameOver s)"
    using assms
    by (subst rerender.simps)
       (simp add: timerEffect_def timerCleanup_def Let_def handleGameOver_timerRef)
  also have "\<dots> = (handleGameOver s)\<lparr>timerRef := None\<rparr>"
    by (rule rerender_idle) simp
  finally show ?thesis by (simp add: handleGameOver_timerRef)
qed

lemma rerender_settled: "settled (rerender s)"
proof -
  consider "gameState s = Playing \<and> 0 < timeLeft s" | "gameState s = Playing \<and> timeLeft s = 0"
    | "gameState s \<noteq> Playing \<or> timeLeft s < 0" by linarith
  then show ?thesis
  proof cases
    case 1 then show ?thesis by (simp add: rerender_playing settled_def)
  next
    case 2 then show ?thesis by (simp add: rerender_timeout settled_def)
  next
    case 3 then show ?thesis by (auto simp: rerender_idle settled_def)
  qed
qed

lemma tick_playing:
  assumes "settled s" "gameState s = Playing" "1 < timeLeft s"
  shows "tick s = s\<lparr>timeLeft := timeLeft s - 1, timerRef := Some (timeLeft s - 1)\<rparr>"
proof -
  have "timerRef s = Some (timeLeft s)" using assms by (simp add: settled_def)
  then show ?thesis
    using assms(2,3) by (simp add: tick_def commit_def rerender_playing)
qed

lemma tick_timeout:
  assumes "settled s" "gameState s = Playing" "timeLeft s = 1"
  shows "tick s = handleGameOver (s\<lparr>timeLeft := 0, timerRef := None\<rparr>)"
proof -
  have "timerRef s = Some (timeLeft s)" using assms by (simp add: settled_def)
  then show ?thesis
    using assms(2,3) by (simp add: tick_def commit_def rerender_timeout)
qed

lemma tick_idle:
  assumes "settled s" "gameState s \<noteq> Playing \<or> timeLeft s \<le> 0"
  shows "tick s = s"
  using assms by (auto simp: settled_def tick_def)

lemma tick_settled:
  assumes "settled s"
  shows "settled (tick s)"
proof -
  consider "gameState s = Playing \<and> 1 < timeLeft s" | "gameState s = Playing \<and> timeLeft s = 1"
    | "gameState s \<noteq> Playing \<or> timeLeft s \<le> 0" by linarith
  then show ?thesis
  proof cases
    case 1 then show ?thesis using assms by (simp add: tick_playing settled_def)
  next
    case 2 then show ?thesis using assms by (simp add: tick_timeout settled_def)
  next
    case 3 then show ?thesis using assms by (simp add: tick_idle)
  qed
qed

lemma ticks_run:
  assumes "settled s" "gameState s = Playing" "0 < timeLeft s"
  shows "(tick ^^ k) s =
           (if int k < timeLeft s
            then s\<lparr>timeLeft := timeLeft s - int k, timerRef := Some (timeLeft s - int k)\<rparr>
            else handleGameOver (s\<lparr>timeLeft := 0, timerRef := None\<rparr>))"
proof (induction k)
  case 0
  have "timerRef s = Some (timeLeft s)" using assms by (simp add: settled_def)
  then have "s\<lparr>timeLeft := timeLeft s, timerRef := Some (timeLeft s)\<rparr> = s" by simp
  with assms(3) show ?case by simp
next
  case (Suc k)
  let ?sk = "s\<lparr>timeLeft := timeLeft s - int k, timerRef := Some (timeLeft s - int k)\<rparr>"
  let ?over = "handleGameOver (s\<lparr>timeLeft := 0, timerRef := None\<rparr>)"
  show ?case
  proof (cases "int k < timeLeft s")
    case False
    then have "(tick ^^ k) s = ?over" using Suc.IH by simp
    moreover have "tick ?over = ?over" by (simp add: tick_def)
    ultimately show ?thesis using False by simp
  next
    case True
    then have k: "(tick ^^ k) s = ?sk" using Suc.IH by simp
    have sk: "settled ?sk" "gameState ?sk = Playing"
      using True assms(2) by (simp_all add: settled_def)
    show ?thesis
    proof (cases "int (Suc k) < timeLeft s")
      case True
      then have "tick ?sk = ?sk\<lparr>timeLeft := timeLeft ?sk - 1, timerRef := Some (timeLeft ?sk - 1)\<rparr>"
        by (intro tick_playing sk) simp
      with k True show ?thesis by (simp add: algebra_simps)
    next
      case False
      with True have "timeLeft ?sk = 1" by simp
      then have "tick ?sk = handleGameOver (?sk\<lparr>timeLeft := 0, timerRef := None\<rparr>)"
        by (intro tick_timeout sk)
      with k False show ?thesis by simp
    qed
  qed
qed


text \<open>
  Claim C6. Let \<open>s\<close> be a state as a render leaves it. While the game is played with time
  left, a tick takes exactly one second off the clock. A run of ticks from such a state
  counts the clock down to 0 and then stays in the state that \<open>handleGameOver\<close> made of
  it: the phase GameOver is entered at the tick that brings the clock to 0, the alert of
  the time out is raised there once and never again, and later ticks change nothing. The
  clock never gets below 0, and a tick outside the Playing phase changes nothing.
\<close>

theorem clock_ticks:
  assumes "settled s"
  shows "(gameState s = Playing \<and> 0 < timeLeft s \<longrightarrow>
            timeLeft (tick s) = timeLeft s - 1
          \<and> (\<forall>k. (tick ^^ k) s =
                 (if int k < timeLeft s
                  then s\<lparr>timeLeft := timeLeft s - int k, timerRef := Some (timeLeft s - int k)\<rparr>
                  else handleGameOver (s\<lparr>timeLeft := 0, timerRef := None\<rparr>))))
       \<and> (gameState s = Playing \<and> 1 < timeLeft s \<longrightarrow>
            gameState (tick s) = Playing \<and> signals (tick s) = signals s)
       \<and> (gameState s = Playing \<and> timeLeft s = 1 \<longrightarrow>
            gameState (tick s) = GameOver \<and> timeLeft (tick s) = 0
          \<and> signals (tick s) =
              signals s @ (if soundEnabled s then [PlaySound ''gameover''] else []) @ [Alert ''Time's Up!'']
          \<and> tick (tick s) = tick s)
       \<and> (0 \<le> timeLeft s \<longrightarrow> 0 \<le> timeLeft (tick s))
       \<and> (gameState s \<noteq> Playing \<longrightarrow> tick s = s)
       \<and> settled (tick s)"
proof (intro conjI impI)
  assume p: "gameState s = Playing \<and> 0 < timeLeft s"
  then consider "1 < timeLeft s" | "timeLeft s = 1" by linarith
  then show "timeLeft (tick s) = timeLeft s - 1"
  proof cases
    case 1 then show ?thesis using assms p by (simp add: tick_playing)
  next
    case 2 then show ?thesis using assms p by (simp add: tick_timeout)
  qed
  show "\<forall>k. (tick ^^ k) s =
                 (if int k < timeLeft s
                  then s\<lparr>timeLeft := timeLeft s - int k, timerRef := Some (timeLeft s - int k)\<rparr>
                  else handleGameOver (s\<lparr>timeLeft := 0, timerRef := None\<rparr>))"
    using ticks_run[OF assms] p by blast
next
  assume p: "gameState s = Playing \<and> 1 < timeLeft s"
  then show "gameState (tick s) = Playing" "signals (tick s) = signals s"
    using assms by (simp_all add: tick_playing)
next
  assume p: "gameState s = Playing \<and> timeLeft s = 1"
  then have t: "tick s = handleGameOver (s\<lparr>timeLeft := 0, timerRef := None\<rparr>)"
    using assms by (simp add: tick_timeout)
  show "gameState (tick s) = GameOver" "timeLeft (tick s) = 0"
    "signals (tick s) =
       signals s @ (if soundEnabled s then [PlaySound ''gameover''] else []) @ [Alert ''Time's Up!'']"
    by (simp_all add: t)
  show "tick (tick s) = tick s" unfolding t by (simp add: tick_def)
next
  assume z: "0 \<le> timeLeft s"
  consider "gameState s = Playing \<and> 1 < timeLeft s" | "gameState s = Playing \<and> timeLeft s = 1"
    | "gameState s \<noteq> Playing \<or> timeLeft s \<le> 0" by linarith
  then show "0 \<le> timeLeft (tick s)"
  proof cases
    case 1 then show ?thesis using assms by (simp add: tick_playing)
  next
    case 2 then show ?thesis using assms by (simp add: tick_timeout)
  next
    case 3 then show ?thesis using assms z by (simp add: tick_idle)
  qed
next
  assume "gameState s \<noteq> Playing"
  then show "tick s = s" using assms by (simp add: tick_idle)
next
  show "settled (tick s)" by (rule tick_settled[OF assms])
qed

theorem clock_ticks_witness:
  "settled (ava\<lparr>timeLeft := 1, timerRef := Some 1\<rparr>)
   \<and> gameState (tick (ava\<lparr>timeLeft := 1, timerRef := Some 1\<rparr>)) = GameOver
   \<and> timeLeft (tick (ava\<lparr>timeLeft := 1, timerRef := Some 1\<rparr>)) = 0
   \<and> signals (tick (ava\<lparr>timeLeft := 1, timerRef := Some 1\<rparr>)) = [Alert ''Time's Up!'']
   \<and> tick (tick (ava\<lparr>timeLeft := 1, timerRef := Some 1\<rparr>)) = tick (ava\<lparr>timeLeft := 1, timerRef := Some 1\<rparr>)
   \<and> settled ava \<and> timeLeft (tick ava) = 28 \<and> gameState (tick ava) = Playing
   \<and> signals ((tick ^^ 40) ava) = [Alert ''Time's Up!'']
   \<and> timeLeft ((tick ^^ 40) ava) = 0"
proof -
  let ?a = "ava\<lparr>timeLeft := 1, timerRef := Some 1\<rparr>"
  have sa: "settled ?a" and s: "settled ava" by (simp_all add: settled_def ava_def)
  have fa: "gameState ?a = Playing \<and> timeLeft ?a = 1" "signals ?a = []" "soundEnabled ?a = False"
    and f: "gameState ava = Playing \<and> 1 < timeLeft ava" "gameState ava = Playing \<and> 0 < timeLeft ava"
      "timeLeft ava = 29" "signals ava = []" "soundEnabled ava = False"
    by (simp_all add: ava_def)
  note a = clock_ticks[OF sa, THEN conjunct2, THEN conjunct2, THEN conjunct1, THEN mp, OF fa(1)]
  note b1 = clock_ticks[OF s, THEN conjunct1, THEN mp, OF f(2)]
  note b2 = clock_ticks[OF s, THEN conjunct2, THEN conjunct1, THEN mp, OF f(1)]
  have r40: "(tick ^^ 40) ava = handleGameOver (ava\<lparr>timeLeft := 0, timerRef := None\<rparr>)"
    using b1[THEN conjunct2, THEN spec, of 40] f(3) by simp
  have "signals ((tick ^^ 40) ava) = [Alert ''Time's Up!'']" "timeLeft ((tick ^^ 40) ava) = 0"
    unfolding r40 using f(4,5) by simp_all
  moreover have "timeLeft (tick ava) = 28" using b1[THEN conjunct1] f(3) by simp
  moreover have "signals (tick ?a) = [Alert ''Time's Up!'']"
    using a fa(2,3) by simp
  ultimately show ?thesis using sa s a b2 by (intro conjI) simp_all
qed

subsection \<open>The colour generator\<close>










end
